theory Spec2Isabelle
  imports Complex_Main
begin

section \<open>Data model of \<open>game/gamestates/gameplay.py\<close>\<close>

text \<open>
  A position (\<open>pyasge.Point2D\<close>) is a pair of coordinates. Python floats are read as
  reals; the handlers under study only copy coordinates, and \<open>to_world\<close> is the one
  place that computes with them.
\<close>

record point2d =
  px :: real
  py :: real

text \<open>
  The grid map (\<open>self.data.game_map\<close>) is an external collaborator: its four queries are
  fields of a record, so that every statement below holds for whatever map is plugged in.
  Tiles are an arbitrary type \<open>'t\<close> compared with equality, as the keys of the Python set.
\<close>

record 't game_map =
  get_neighbors :: "'t \<Rightarrow> 't list"
  is_tile_passable :: "'t \<Rightarrow> bool"
  tile :: "point2d \<Rightarrow> 't"
  world :: "'t \<Rightarrow> point2d"

text \<open>
  What a call yields when it comes back: a value, or an exception. \<open>path[-1]\<close> raises
  \<open>IndexError\<close> on an empty list and a division raises \<open>ZeroDivisionError\<close> on a
  zero divisor. A call that never comes back is \<open>None\<close> one level further out (the
  option of \<open>partial_function\<close>).
\<close>

datatype error = IndexError | ZeroDivisionError

datatype 'a outcome = Return 'a | Raise error

section \<open>Breadth-first search: \<open>GamePlay.bf_pathfinding\<close>\<close>

text \<open>
  One run of the body of \<open>while queue:\<close>, as a step on the pair of the queue and the
  visited set: either the function returns (\<open>Inl\<close>), or the loop goes on with a new
  queue and visited set (\<open>Inr\<close>). The neighbours are only asked for in the branch
  that marks the current tile as visited.
\<close>

definition bf_step ::
  "('t \<Rightarrow> 't list) \<Rightarrow> 't \<Rightarrow> 't list list \<times> 't set
     \<Rightarrow> 't list option outcome + 't list list \<times> 't set" where
  "bf_step nbrs target_tile st =
     (case fst st of
        [] \<Rightarrow> Inl (Return None)
      | path # rest \<Rightarrow>
          if path = [] then Inl (Raise IndexError)
          else let current_tile = last path in
            if current_tile = target_tile then Inl (Return (Some path))
            else if current_tile \<notin> snd st then
              Inr (rest @ map (\<lambda>neighbour. path @ [neighbour]) (nbrs current_tile),
                   insert current_tile (snd st))
            else Inr (rest, snd st))"

partial_function (option) bf_loop ::
  "('t \<Rightarrow> 't list) \<Rightarrow> 't \<Rightarrow> 't list list \<times> 't set \<Rightarrow> 't list option outcome option" where
  "bf_loop nbrs target_tile st =
     (case bf_step nbrs target_tile st of
        Inl r \<Rightarrow> Some r
      | Inr st' \<Rightarrow> bf_loop nbrs target_tile st')"

definition bf_pathfinding ::
  "'t game_map \<Rightarrow> 't \<Rightarrow> 't \<Rightarrow> 't list option outcome option" where
  "bf_pathfinding gm start_tile target_tile =
     bf_loop (get_neighbors gm) target_tile ([[start_tile]], {})"

section \<open>The handlers: \<open>click_handler\<close>, \<open>update\<close> and \<open>to_world\<close>\<close>

datatype mouse_button = MOUSE_BTN1 | MOUSE_BTN2 | MOUSE_BTN3

datatype mouse_action = BUTTON_PRESSED | BUTTON_RELEASED

record click_event =
  button :: mouse_button
  action :: mouse_action
  ev_x :: real
  ev_y :: real

record camera_view =
  min_x :: real
  max_x :: real
  min_y :: real
  max_y :: real

text \<open>
  The part of \<open>self.data\<close> and \<open>self.camera\<close> that the handlers read and write.
  \<open>path\<close> is \<open>None\<close> or a list; \<open>player\<close> holds the \<open>x\<close> and \<open>y\<close> of the
  player sprite.
\<close>

record 't game_data =
  game_map :: "'t game_map"
  path :: "'t list option"
  player :: point2d
  game_res :: "real \<times> real"
  view :: camera_view

text \<open>Python truthiness of \<open>self.data.path\<close>: \<open>None\<close> and \<open>[]\<close> are false.\<close>

definition has_path :: "'t game_data \<Rightarrow> bool" where
  "has_path gd = (case path gd of None \<Rightarrow> False | Some p \<Rightarrow> p \<noteq> [])"

text \<open>
  Lines 76 and 77: the event's own coordinates are packed into a point and handed to
  the map's \<open>tile\<close> query.
\<close>

definition click_target :: "'t game_data \<Rightarrow> click_event \<Rightarrow> 't" where
  "click_target gd ev = tile (game_map gd) \<lparr>px = ev_x ev, py = ev_y ev\<rparr>"

definition player_tile :: "'t game_data \<Rightarrow> 't" where
  "player_tile gd = tile (game_map gd) \<lparr>px = px (player gd), py = py (player gd)\<rparr>"

text \<open>
  \<open>click_handler\<close>, without its \<open>print\<close> calls. An exception or a search that never
  ends in \<open>bf_pathfinding\<close> is passed on; otherwise the state after the call is returned.
\<close>

definition click_handler :: "'t game_data \<Rightarrow> click_event \<Rightarrow> 't game_data outcome option" where
  "click_handler gd ev =
     (if button ev = MOUSE_BTN1 \<and> action ev = BUTTON_PRESSED then
        let target_tile = click_target gd ev in
        if \<not> is_tile_passable (game_map gd) target_tile then Some (Return gd)
        else if \<not> has_path gd then
          (case bf_pathfinding (game_map gd) (player_tile gd) target_tile of
             None \<Rightarrow> None
           | Some (Raise e) \<Rightarrow> Some (Raise e)
           | Some (Return r) \<Rightarrow> Some (Return (gd\<lparr>path := r\<rparr>)))
        else Some (Return gd)
      else Some (Return gd))"

text \<open>\<open>update\<close>: one tick. The \<open>game_time\<close> argument is not read.\<close>

definition update :: "'t game_data \<Rightarrow> 't game_data" where
  "update gd =
     (case path gd of
        None \<Rightarrow> gd
      | Some [] \<Rightarrow> gd
      | Some (next_tile # rest) \<Rightarrow>
          if \<not> is_tile_passable (game_map gd) next_tile then gd\<lparr>path := None\<rparr>
          else let new_pos = world (game_map gd) next_tile in
            gd\<lparr>player := \<lparr>px = px new_pos, py = py new_pos\<rparr>, path := Some rest\<rparr>)"

text \<open>\<open>to_world\<close>: from a position in the window to a position in the world.\<close>

definition to_world :: "'t game_data \<Rightarrow> point2d \<Rightarrow> point2d outcome" where
  "to_world gd pos =
     (if fst (game_res gd) = 0 \<or> snd (game_res gd) = 0 then Raise ZeroDivisionError
      else
        let v = view gd;
            x = (max_x v - min_x v) / fst (game_res gd) * px pos;
            y = (max_y v - min_y v) / snd (game_res gd) * py pos
        in Return \<lparr>px = min_x v + x, py = min_y v + y\<rparr>)"

section \<open>Vocabulary of the statements\<close>

text \<open>
  A path of the adjacency graph: a non-empty list of tiles in which every tile is
  followed by one of its neighbours.
\<close>

fun is_path :: "('t \<Rightarrow> 't list) \<Rightarrow> 't list \<Rightarrow> bool" where
  "is_path nbrs [] = False"
| "is_path nbrs [x] = True"
| "is_path nbrs (x # y # ys) = (y \<in> set (nbrs x) \<and> is_path nbrs (y # ys))"

definition reachable :: "('t \<Rightarrow> 't list) \<Rightarrow> 't \<Rightarrow> 't \<Rightarrow> bool" where
  "reachable nbrs a b \<longleftrightarrow> (\<exists>p. is_path nbrs p \<and> hd p = a \<and> last p = b)"

text \<open>The least number of hops of a path from \<open>a\<close> to \<open>b\<close>.\<close>

definition hop_dist :: "('t \<Rightarrow> 't list) \<Rightarrow> 't \<Rightarrow> 't \<Rightarrow> nat" where
  "hop_dist nbrs a b = (LEAST k. \<exists>p. is_path nbrs p \<and> hd p = a \<and> last p = b \<and> length p = Suc k)"

text \<open>
  The paths as the search builds them: from the start, one neighbour appended at a time.
\<close>

inductive walk :: "('t \<Rightarrow> 't list) \<Rightarrow> 't \<Rightarrow> 't list \<Rightarrow> bool"
  for nbrs :: "'t \<Rightarrow> 't list" and s :: 't where
  walk_start: "walk nbrs s [s]"
| walk_step: "walk nbrs s p \<Longrightarrow> n \<in> set (nbrs (last p)) \<Longrightarrow> walk nbrs s (p @ [n])"

text \<open>
  The loop invariant of the search from \<open>s\<close> to \<open>t\<close>: the queue holds walks from
  \<open>s\<close>, ordered by length, no two lengths more than one apart; \<open>t\<close> is not visited;
  \<open>s\<close> is visited or still queued; and every neighbour of a visited tile is visited or
  queued on a path at most one tile longer than any walk to that visited tile.
\<close>

definition bf_inv :: "('t \<Rightarrow> 't list) \<Rightarrow> 't \<Rightarrow> 't \<Rightarrow> 't list list \<times> 't set \<Rightarrow> bool" where
  "bf_inv nbrs s t st \<longleftrightarrow>
     (\<forall>p\<in>set (fst st). walk nbrs s p) \<and>
     sorted (map length (fst st)) \<and>
     (\<forall>p\<in>set (fst st). length p \<le> Suc (length (hd (fst st)))) \<and>
     t \<notin> snd st \<and>
     (s \<in> snd st \<or> [s] \<in> set (fst st)) \<and>
     (\<forall>u\<in>snd st. \<forall>n\<in>set (nbrs u). n \<in> snd st \<or>
        (\<exists>p\<in>set (fst st). last p = n \<and>
           (\<forall>w. walk nbrs s w \<and> last w = u \<longrightarrow> length p \<le> Suc (length w))))"

text \<open>What the search may return, from \<open>s\<close> to \<open>t\<close>.\<close>

definition bf_post :: "('t \<Rightarrow> 't list) \<Rightarrow> 't \<Rightarrow> 't \<Rightarrow> 't list option outcome \<Rightarrow> bool" where
  "bf_post nbrs s t r \<longleftrightarrow>
     (case r of
        Raise e \<Rightarrow> False
      | Return None \<Rightarrow> (\<forall>w. walk nbrs s w \<longrightarrow> last w \<noteq> t)
      | Return (Some p) \<Rightarrow> walk nbrs s p \<and> last p = t \<and>
          (\<forall>w. walk nbrs s w \<and> last w = t \<longrightarrow> length p \<le> length w))"

text \<open>
  The number of loop iterations a queued path can still cause while paths of at most
  \<open>k\<close> more tiles are taken from the queue; summed over the queue it bounds the
  iterations left before a target at that depth is found.
\<close>

fun weight :: "('t \<Rightarrow> 't list) \<Rightarrow> nat \<Rightarrow> 't list \<Rightarrow> nat" where
  "weight nbrs 0 p = 0"
| "weight nbrs (Suc k) p = Suc (sum_list (map (\<lambda>n. weight nbrs k (p @ [n])) (nbrs (last p))))"

definition potential :: "('t \<Rightarrow> 't list) \<Rightarrow> nat \<Rightarrow> 't list list \<Rightarrow> nat" where
  "potential nbrs L q = sum_list (map (\<lambda>p. weight nbrs (Suc L - length p) p) q)"

section \<open>An example map\<close>

text \<open>
  A map of three columns and two rows of 32 by 32 tiles, tiles being (column, row)
  pairs, used as the concrete input of the examples below. \<open>example_map\<close> lists the
  four tiles around a tile that lie on the grid, walls included; \<open>fenced_map\<close> leaves
  the walls out of the neighbours.
\<close>

definition in_grid :: "int \<times> int \<Rightarrow> bool" where
  "in_grid t \<longleftrightarrow> 0 \<le> fst t \<and> fst t < 3 \<and> 0 \<le> snd t \<and> snd t < 2"

definition example_neighbors :: "int \<times> int \<Rightarrow> (int \<times> int) list" where
  "example_neighbors t =
     filter in_grid [(fst t, snd t - 1), (fst t + 1, snd t), (fst t, snd t + 1), (fst t - 1, snd t)]"

definition example_map :: "(int \<times> int) set \<Rightarrow> (int \<times> int) game_map" where
  "example_map walls =
     \<lparr>get_neighbors = example_neighbors,
      is_tile_passable = (\<lambda>t. in_grid t \<and> t \<notin> walls),
      tile = (\<lambda>p. (\<lfloor>px p / 32\<rfloor>, \<lfloor>py p / 32\<rfloor>)),
      world = (\<lambda>t. \<lparr>px = 32 * real_of_int (fst t), py = 32 * real_of_int (snd t)\<rparr>)\<rparr>"

definition fenced_map :: "(int \<times> int) set \<Rightarrow> (int \<times> int) game_map" where
  "fenced_map walls =
     (example_map walls)\<lparr>get_neighbors := \<lambda>t. filter (\<lambda>n. n \<notin> walls) (example_neighbors t)\<rparr>"

definition example_data ::
  "(int \<times> int) game_map \<Rightarrow> (int \<times> int) list option \<Rightarrow> point2d \<Rightarrow> (int \<times> int) game_data" where
  "example_data gm p pos =
     \<lparr>game_map = gm, path = p, player = pos, game_res = (640, 480),
      view = \<lparr>min_x = 64, max_x = 704, min_y = 0, max_y = 480\<rparr>\<rparr>"

definition press :: "real \<Rightarrow> real \<Rightarrow> click_event" where
  "press x y = \<lparr>button = MOUSE_BTN1, action = BUTTON_PRESSED, ev_x = x, ev_y = y\<rparr>"

text \<open>
  A map that is not bounded: the tiles are the natural numbers, each with the next number
  as its only neighbour.
\<close>

definition line_map :: "nat game_map" where
  "line_map =
     \<lparr>get_neighbors = (\<lambda>n. [Suc n]),
      is_tile_passable = (\<lambda>n. True),
      tile = (\<lambda>p. nat \<lfloor>px p / 32\<rfloor>),
      world = (\<lambda>n. \<lparr>px = 32 * real n, py = 0\<rparr>)\<rparr>"

section \<open>The loop and its invariant\<close>

lemma bf_loop_Inl: "bf_step nbrs t st = Inl r \<Longrightarrow> bf_loop nbrs t st = Some r"
  by (subst bf_loop.simps) simp

lemma bf_loop_Inr: "bf_step nbrs t st = Inr st' \<Longrightarrow> bf_loop nbrs t st = bf_loop nbrs t st'"
  by (subst bf_loop.simps) simp

lemma bf_loop_rule:
  assumes run: "bf_loop nbrs t st = Some r"
    and init: "I st"
    and pres: "\<And>x x'. I x \<Longrightarrow> bf_step nbrs t x = Inr x' \<Longrightarrow> I x'"
    and exit: "\<And>x y. I x \<Longrightarrow> bf_step nbrs t x = Inl y \<Longrightarrow> Q y"
  shows "Q r"
proof -
  let ?P = "\<lambda>n u x y. n = nbrs \<and> u = t \<and> I x \<longrightarrow> Q y"
  have "?P nbrs t st r"
  proof (rule bf_loop.raw_induct [where P = ?P, OF _ run])
    fix f n u x y
    assume IH: "\<And>n u x y. f n u x = Some y \<Longrightarrow> ?P n u x y"
      and body: "(case bf_step n u x of Inl r \<Rightarrow> Some r | Inr x' \<Rightarrow> f n u x') = Some y"
    show "?P n u x y"
    proof (intro impI, elim conjE)
      assume eq: "n = nbrs" "u = t" and inv: "I x"
      show "Q y"
      proof (cases "bf_step nbrs t x")
        case (Inl a)
        with body eq have "a = y" by simp
        with Inl inv exit show ?thesis by blast
      next
        case (Inr x')
        with body eq have "f nbrs t x' = Some y" by simp
        moreover from Inr inv pres have "I x'" by blast
        ultimately show ?thesis using IH by blast
      qed
    qed
  qed
  with init show ?thesis by blast
qed

section \<open>Paths and walks\<close>

lemma is_path_nth:
  "is_path nbrs p \<longleftrightarrow> p \<noteq> [] \<and> (\<forall>i. Suc i < length p \<longrightarrow> p ! Suc i \<in> set (nbrs (p ! i)))"
proof (induction nbrs p rule: is_path.induct)
  case (3 nbrs x y ys)
  have "(\<forall>i. Suc i < length (x # y # ys) \<longrightarrow> (x # y # ys) ! Suc i \<in> set (nbrs ((x # y # ys) ! i)))
        \<longleftrightarrow> y \<in> set (nbrs x) \<and> (\<forall>i. Suc i < length (y # ys) \<longrightarrow> (y # ys) ! Suc i \<in> set (nbrs ((y # ys) ! i)))"
    (is "?L \<longleftrightarrow> ?R")
  proof
    assume l: ?L
    from l [rule_format, of 0] have "y \<in> set (nbrs x)" by simp
    moreover have "(y # ys) ! Suc i \<in> set (nbrs ((y # ys) ! i))" if "Suc i < length (y # ys)" for i
      using l [rule_format, of "Suc i"] that by simp
    ultimately show ?R by blast
  next
    assume r: ?R
    show ?L
    proof (intro allI impI)
      fix i assume "Suc i < length (x # y # ys)"
      then show "(x # y # ys) ! Suc i \<in> set (nbrs ((x # y # ys) ! i))"
        using r by (cases i) simp_all
    qed
  qed
  with 3 show ?case by simp
qed simp_all

lemma walk_nonempty: "walk nbrs s p \<Longrightarrow> p \<noteq> []"
  by (induction rule: walk.induct) simp_all

lemma walk_hd: "walk nbrs s p \<Longrightarrow> hd p = s"
  by (induction rule: walk.induct) (simp_all add: walk_nonempty)

lemma walk_is_path: "walk nbrs s p \<Longrightarrow> is_path nbrs p"
proof (induction rule: walk.induct)
  case walk_start
  show ?case by (simp add: is_path_nth)
next
  case (walk_step p n)
  have ne: "p \<noteq> []" using walk_step.hyps(1) by (rule walk_nonempty)
  have "(p @ [n]) ! Suc i \<in> set (nbrs ((p @ [n]) ! i))" if "Suc i < length (p @ [n])" for i
  proof (cases "Suc i < length p")
    case True
    with walk_step.IH show ?thesis by (simp add: is_path_nth nth_append)
  next
    case False
    with that have i: "length p = Suc i" by simp
    then have "p ! i = last p" using ne by (simp add: last_conv_nth)
    with i walk_step.hyps(2) show ?thesis by (simp add: nth_append)
  qed
  then show ?case by (simp add: is_path_nth)
qed

lemma is_path_walk: "is_path nbrs p \<Longrightarrow> walk nbrs (hd p) p"
proof (induction p rule: rev_induct)
  case Nil
  then show ?case by (simp add: is_path_nth)
next
  case (snoc x p)
  show ?case
  proof (cases "p = []")
    case True
    then show ?thesis by (simp add: walk_start)
  next
    case False
    have adj: "\<And>i. Suc i < length (p @ [x]) \<Longrightarrow> (p @ [x]) ! Suc i \<in> set (nbrs ((p @ [x]) ! i))"
      using snoc.prems by (simp add: is_path_nth)
    have "is_path nbrs p"
      unfolding is_path_nth
    proof (intro conjI allI impI)
      show "p \<noteq> []" by (rule False)
    next
      fix i assume "Suc i < length p"
      with adj [of i] show "p ! Suc i \<in> set (nbrs (p ! i))" by (simp add: nth_append)
    qed
    then have w: "walk nbrs (hd p) p" by (rule snoc.IH)
    obtain k where k: "length p = Suc k" using False by (cases p) auto
    with adj [of k] have "x \<in> set (nbrs (p ! k))" by (simp add: nth_append)
    moreover have "p ! k = last p" using False k by (simp add: last_conv_nth)
    ultimately have "walk nbrs (hd p) (p @ [x])" using w by (simp add: walk_step)
    with False show ?thesis by simp
  qed
qed

lemma walk_iff_path: "walk nbrs s p \<longleftrightarrow> is_path nbrs p \<and> hd p = s"
proof
  assume "walk nbrs s p"
  then show "is_path nbrs p \<and> hd p = s" by (simp add: walk_is_path walk_hd)
next
  assume "is_path nbrs p \<and> hd p = s"
  then show "walk nbrs s p" using is_path_walk [of nbrs p] by simp
qed

lemma bf_inv_init: "bf_inv nbrs s t ([[s]], {})"
  by (simp add: bf_inv_def walk_start)

lemma bf_inv_front:
  assumes inv: "bf_inv nbrs s t (q, vis)" and w: "walk nbrs s w" and nv: "last w \<notin> vis"
  shows "\<exists>p\<in>set q. length p \<le> length w"
  using w nv
proof (induction rule: walk.induct)
  case walk_start
  with inv have "[s] \<in> set q" by (simp add: bf_inv_def)
  then show ?case by force
next
  case (walk_step p n)
  show ?case
  proof (cases "last p \<in> vis")
    case False
    with walk_step.IH obtain p' where "p' \<in> set q" "length p' \<le> length p" by blast
    then show ?thesis by force
  next
    case True
    from walk_step.prems have "n \<notin> vis" by simp
    moreover from inv have "\<forall>u\<in>vis. \<forall>n\<in>set (nbrs u). n \<in> vis \<or>
        (\<exists>p\<in>set q. last p = n \<and>
           (\<forall>w. walk nbrs s w \<and> last w = u \<longrightarrow> length p \<le> Suc (length w)))"
      by (simp add: bf_inv_def)
    ultimately obtain p' where "p' \<in> set q"
      and "\<forall>w. walk nbrs s w \<and> last w = last p \<longrightarrow> length p' \<le> Suc (length w)"
      using True walk_step.hyps(2) by blast
    with walk_step.hyps(1) have "p' \<in> set q" "length p' \<le> Suc (length p)" by auto
    then show ?thesis by force
  qed
qed

lemma bf_inv_head_least:
  assumes inv: "bf_inv nbrs s t (p # rest, vis)" and w: "walk nbrs s w" and nv: "last w \<notin> vis"
  shows "length p \<le> length w"
proof -
  from bf_inv_front [OF inv w nv] obtain p' where p': "p' \<in> set (p # rest)" "length p' \<le> length w"
    by blast
  from inv have "sorted (map length (p # rest))" by (simp add: bf_inv_def)
  with p'(1) have "length p \<le> length p'" by auto
  with p'(2) show ?thesis by simp
qed

lemma bf_step_Inr_cases:
  assumes "bf_step nbrs t (q, vis) = Inr st'"
  obtains (expand) p rest where "q = p # rest" "p \<noteq> []" "last p \<noteq> t" "last p \<notin> vis"
      "st' = (rest @ map (\<lambda>n. p @ [n]) (nbrs (last p)), insert (last p) vis)"
  | (drop) p rest where "q = p # rest" "p \<noteq> []" "last p \<noteq> t" "last p \<in> vis" "st' = (rest, vis)"
  using assms
  by (cases q) (auto simp: bf_step_def Let_def split: if_splits)

lemma sorted_map_const: "sorted (map (\<lambda>x. c::nat) xs)"
  by (induction xs) simp_all

lemma bf_inv_drop:
  assumes inv: "bf_inv nbrs s t (p # rest, vis)" and c: "last p \<in> vis"
  shows "bf_inv nbrs s t (rest, vis)"
proof -
  have walks: "\<forall>p'\<in>set rest. walk nbrs s p'" using inv by (simp add: bf_inv_def)
  have srt: "sorted (map length (p # rest))" using inv by (simp add: bf_inv_def)
  then have srt': "sorted (map length rest)" by simp
  have spread: "\<forall>p'\<in>set (p # rest). length p' \<le> Suc (length p)" using inv by (simp add: bf_inv_def)
  have spread': "\<forall>p'\<in>set rest. length p' \<le> Suc (length (hd rest))"
  proof
    fix p' assume p': "p' \<in> set rest"
    then have "rest \<noteq> []" by auto
    then have "hd rest \<in> set rest" by simp
    with srt have "length p \<le> length (hd rest)" by auto
    moreover from spread p' have "length p' \<le> Suc (length p)" by simp
    ultimately show "length p' \<le> Suc (length (hd rest))" by simp
  qed
  have tv: "t \<notin> vis" using inv by (simp add: bf_inv_def)
  have "s \<in> vis \<or> [s] \<in> set (p # rest)" using inv by (simp add: bf_inv_def)
  with c have src: "s \<in> vis \<or> [s] \<in> set rest" by auto
  have edges: "\<forall>u\<in>vis. \<forall>n\<in>set (nbrs u). n \<in> vis \<or>
        (\<exists>p'\<in>set (p # rest). last p' = n \<and>
           (\<forall>w. walk nbrs s w \<and> last w = u \<longrightarrow> length p' \<le> Suc (length w)))"
    using inv by (simp add: bf_inv_def)
  have edges': "\<forall>u\<in>vis. \<forall>n\<in>set (nbrs u). n \<in> vis \<or>
        (\<exists>p'\<in>set rest. last p' = n \<and>
           (\<forall>w. walk nbrs s w \<and> last w = u \<longrightarrow> length p' \<le> Suc (length w)))"
  proof (intro ballI)
    fix u n assume "u \<in> vis" "n \<in> set (nbrs u)"
    with edges have "n \<in> vis \<or>
        (\<exists>p'\<in>set (p # rest). last p' = n \<and>
           (\<forall>w. walk nbrs s w \<and> last w = u \<longrightarrow> length p' \<le> Suc (length w)))" by blast
    then show "n \<in> vis \<or>
        (\<exists>p'\<in>set rest. last p' = n \<and>
           (\<forall>w. walk nbrs s w \<and> last w = u \<longrightarrow> length p' \<le> Suc (length w)))"
      using c by auto
  qed
  from walks srt' spread' tv src edges' show ?thesis by (simp add: bf_inv_def)
qed

lemma bf_inv_expand:
  assumes inv: "bf_inv nbrs s t (p # rest, vis)" and c: "last p \<notin> vis" and nt: "last p \<noteq> t"
  shows "bf_inv nbrs s t (rest @ map (\<lambda>n. p @ [n]) (nbrs (last p)), insert (last p) vis)"
proof -
  let ?ext = "map (\<lambda>n. p @ [n]) (nbrs (last p))"
  let ?q = "rest @ ?ext"
  have wp: "walk nbrs s p" and wrest: "\<forall>p'\<in>set rest. walk nbrs s p'"
    using inv by (simp_all add: bf_inv_def)
  have walks: "\<forall>p'\<in>set ?q. walk nbrs s p'"
    using wp wrest by (auto intro: walk_step)
  have srt: "sorted (map length (p # rest))" using inv by (simp add: bf_inv_def)
  have spread: "\<forall>p'\<in>set (p # rest). length p' \<le> Suc (length p)" using inv by (simp add: bf_inv_def)
  have lens: "\<forall>p'\<in>set ?q. length p' \<le> Suc (length p)" using spread by auto
  have srt': "sorted (map length ?q)"
    using srt spread by (auto simp: sorted_append sorted_map_const comp_def)
  have low: "\<forall>p'\<in>set ?q. length p \<le> length p'" using srt by auto
  have spread': "\<forall>p'\<in>set ?q. length p' \<le> Suc (length (hd ?q))"
  proof
    fix p' assume p': "p' \<in> set ?q"
    then have "?q \<noteq> []" by auto
    then have "hd ?q \<in> set ?q" by (rule hd_in_set)
    with low have "length p \<le> length (hd ?q)" by blast
    moreover from lens p' have "length p' \<le> Suc (length p)" by blast
    ultimately show "length p' \<le> Suc (length (hd ?q))" by simp
  qed
  have tv: "t \<notin> insert (last p) vis" using inv nt by (simp add: bf_inv_def)
  have "s \<in> vis \<or> [s] \<in> set (p # rest)" using inv by (simp add: bf_inv_def)
  then have src: "s \<in> insert (last p) vis \<or> [s] \<in> set ?q" by auto
  have edges: "\<forall>u\<in>vis. \<forall>n\<in>set (nbrs u). n \<in> vis \<or>
        (\<exists>p'\<in>set (p # rest). last p' = n \<and>
           (\<forall>w. walk nbrs s w \<and> last w = u \<longrightarrow> length p' \<le> Suc (length w)))"
    using inv by (simp add: bf_inv_def)
  have edges': "\<forall>u\<in>insert (last p) vis. \<forall>n\<in>set (nbrs u). n \<in> insert (last p) vis \<or>
        (\<exists>p'\<in>set ?q. last p' = n \<and>
           (\<forall>w. walk nbrs s w \<and> last w = u \<longrightarrow> length p' \<le> Suc (length w)))"
  proof (intro ballI)
    fix u n assume u: "u \<in> insert (last p) vis" and n: "n \<in> set (nbrs u)"
    show "n \<in> insert (last p) vis \<or>
        (\<exists>p'\<in>set ?q. last p' = n \<and>
           (\<forall>w. walk nbrs s w \<and> last w = u \<longrightarrow> length p' \<le> Suc (length w)))"
    proof (cases "u = last p")
      case True
      have "p @ [n] \<in> set ?q" using n True by simp
      moreover have "last (p @ [n]) = n" by simp
      moreover have "\<forall>w. walk nbrs s w \<and> last w = u \<longrightarrow> length (p @ [n]) \<le> Suc (length w)"
      proof (intro allI impI)
        fix w assume "walk nbrs s w \<and> last w = u"
        with True c have "walk nbrs s w" "last w \<notin> vis" by simp_all
        from bf_inv_head_least [OF inv this] show "length (p @ [n]) \<le> Suc (length w)" by simp
      qed
      ultimately show ?thesis by blast
    next
      case False
      with u have "u \<in> vis" by simp
      with edges n have "n \<in> vis \<or>
        (\<exists>p'\<in>set (p # rest). last p' = n \<and>
           (\<forall>w. walk nbrs s w \<and> last w = u \<longrightarrow> length p' \<le> Suc (length w)))" by blast
      then show ?thesis by auto
    qed
  qed
  from walks srt' spread' tv src edges' show ?thesis by (simp add: bf_inv_def)
qed

lemma bf_inv_step:
  assumes "bf_inv nbrs s t st" "bf_step nbrs t st = Inr st'"
  shows "bf_inv nbrs s t st'"
proof -
  obtain q vis where st: "st = (q, vis)" by (cases st)
  from assms(2) [unfolded st] show ?thesis
  proof (cases rule: bf_step_Inr_cases)
    case (expand p rest)
    with assms(1) st bf_inv_expand [of nbrs s t p rest vis] show ?thesis by simp
  next
    case (drop p rest)
    with assms(1) st bf_inv_drop [of nbrs s t p rest vis] show ?thesis by simp
  qed
qed

lemma bf_step_Inl_cases:
  assumes "bf_step nbrs t (q, vis) = Inl r"
  obtains (empty) "q = []" "r = Return None"
  | (raise) rest where "q = [] # rest" "r = Raise IndexError"
  | (found) p rest where "q = p # rest" "p \<noteq> []" "last p = t" "r = Return (Some p)"
  using assms
  by (cases q) (auto simp: bf_step_def Let_def split: if_splits)

lemma bf_inv_exit:
  assumes inv: "bf_inv nbrs s t st" and step: "bf_step nbrs t st = Inl r"
  shows "bf_post nbrs s t r"
proof -
  obtain q vis where st: "st = (q, vis)" by (cases st)
  have tv: "t \<notin> vis" using inv st by (simp add: bf_inv_def)
  from step [unfolded st] show ?thesis
  proof (cases rule: bf_step_Inl_cases)
    case empty
    have "last w \<noteq> t" if "walk nbrs s w" for w
    proof
      assume "last w = t"
      with tv have "last w \<notin> vis" by simp
      from bf_inv_front [OF inv [unfolded st] that this] empty(1) show False by simp
    qed
    with empty show ?thesis by (simp add: bf_post_def)
  next
    case (raise rest)
    with inv st have "walk nbrs s []" by (simp add: bf_inv_def)
    then show ?thesis using walk_nonempty [of nbrs s "[]"] by simp
  next
    case (found p rest)
    have "walk nbrs s p" using inv st found(1) by (simp add: bf_inv_def)
    moreover have "length p \<le> length w" if "walk nbrs s w \<and> last w = t" for w
      using bf_inv_head_least [of nbrs s t p rest vis w] inv st found(1) tv that by simp
    ultimately show ?thesis using found by (simp add: bf_post_def)
  qed
qed

lemma bf_loop_post:
  assumes "bf_loop nbrs t ([[s]], {}) = Some r"
  shows "bf_post nbrs s t r"
  using assms
proof (rule bf_loop_rule [where I = "bf_inv nbrs s t"])
  show "bf_inv nbrs s t ([[s]], {})" by (rule bf_inv_init)
qed (auto intro: bf_inv_step bf_inv_exit)

lemma potential_Cons:
  "potential nbrs L (p # rest) = weight nbrs (Suc L - length p) p + potential nbrs L rest"
  by (simp add: potential_def)

lemma potential_expand:
  assumes "length p \<le> L"
  shows "Suc (potential nbrs L (rest @ map (\<lambda>n. p @ [n]) (nbrs (last p))))
         = potential nbrs L (p # rest)"
proof -
  from assms have "Suc L - length p = Suc (L - length p)" by simp
  then show ?thesis by (simp add: potential_def comp_def)
qed

lemma potential_drop:
  assumes "length p \<le> L"
  shows "potential nbrs L rest < potential nbrs L (p # rest)"
proof -
  from assms have "Suc L - length p = Suc (L - length p)" by simp
  then show ?thesis by (simp add: potential_def)
qed

lemma bf_loop_terminates_reachable:
  assumes w: "walk nbrs s w" "last w = t"
  shows "bf_inv nbrs s t st \<Longrightarrow> \<exists>r. bf_loop nbrs t st = Some r"
proof (induction "potential nbrs (length w) (fst st)" arbitrary: st rule: less_induct)
  case less
  obtain q vis where st: "st = (q, vis)" by (cases st)
  show ?case
  proof (cases "bf_step nbrs t st")
    case (Inl r)
    then show ?thesis by (auto dest: bf_loop_Inl)
  next
    case (Inr st')
    have inv': "bf_inv nbrs s t st'" using less.prems Inr by (rule bf_inv_step)
    have tv: "t \<notin> vis" using less.prems st by (simp add: bf_inv_def)
    have "potential nbrs (length w) (fst st') < potential nbrs (length w) (fst st)"
      using Inr [unfolded st]
    proof (cases rule: bf_step_Inr_cases)
      case (expand p rest)
      have "length p \<le> length w"
        using bf_inv_head_least [of nbrs s t p rest vis w] less.prems st expand(1) w tv by simp
      from potential_expand [OF this, of nbrs rest] show ?thesis using expand st by simp
    next
      case (drop p rest)
      have "length p \<le> length w"
        using bf_inv_head_least [of nbrs s t p rest vis w] less.prems st drop(1) w tv by simp
      from potential_drop [OF this, of nbrs rest] show ?thesis using drop st by simp
    qed
    from less.hyps [OF this inv'] show ?thesis using bf_loop_Inr [OF Inr] by simp
  qed
qed

lemma bf_loop_terminates_finite:
  assumes fin: "finite R" and closed: "\<forall>u\<in>R. set (nbrs u) \<subseteq> R"
  shows "\<forall>p\<in>set q. last p \<in> R \<Longrightarrow> \<exists>r. bf_loop nbrs t (q, vis) = Some r"
proof (induction "card (R - vis)" arbitrary: q vis rule: less_induct)
  case less
  from less.prems show ?case
  proof (induction q)
    case Nil
    have "bf_step nbrs t ([], vis) = Inl (Return None)" by (simp add: bf_step_def)
    then show ?case by (auto dest: bf_loop_Inl)
  next
    case (Cons p rest)
    show ?case
    proof (cases "bf_step nbrs t (p # rest, vis)")
      case (Inl r)
      then show ?thesis by (auto dest: bf_loop_Inl)
    next
      case (Inr st')
      from Inr show ?thesis
      proof (cases rule: bf_step_Inr_cases)
        case (expand p' rest')
        then have eq: "p' = p" "rest' = rest" by simp_all
        have c: "last p \<in> R" using Cons.prems by simp
        have sub: "set (nbrs (last p)) \<subseteq> R" using closed c by blast
        have lasts: "\<forall>x\<in>set (rest @ map (\<lambda>n. p @ [n]) (nbrs (last p))). last x \<in> R"
          using Cons.prems sub by auto
        have "card (R - insert (last p) vis) < card (R - vis)"
          using c expand(4) eq fin by (intro psubset_card_mono) auto
        from less.hyps [OF this lasts]
        have "\<exists>r. bf_loop nbrs t (rest @ map (\<lambda>n. p @ [n]) (nbrs (last p)), insert (last p) vis) = Some r" .
        then show ?thesis using bf_loop_Inr [OF Inr] expand(5) eq by simp
      next
        case (drop p' rest')
        then have eq: "p' = p" "rest' = rest" by simp_all
        have "\<exists>r. bf_loop nbrs t (rest, vis) = Some r" using Cons.IH Cons.prems by simp
        then show ?thesis using bf_loop_Inr [OF Inr] drop(5) eq by simp
      qed
    qed
  qed
qed

section \<open>The example map, evaluated\<close>

lemmas example_simps = example_map_def fenced_map_def example_neighbors_def in_grid_def
  example_data_def press_def player_tile_def click_target_def

lemma example_search:
  "bf_pathfinding (example_map W) (0, 0) (2, 0) = Some (Return (Some [(0, 0), (1, 0), (2, 0)]))"
  by (simp add: bf_pathfinding_def bf_loop.simps bf_step_def Let_def example_simps)

lemma fenced_search:
  "bf_pathfinding (fenced_map {(1, 0), (1, 1)}) (0, 0) (2, 0) = Some (Return None)"
  by (simp add: bf_pathfinding_def bf_loop.simps bf_step_def Let_def example_simps)

lemma example_tile: "tile (example_map W) \<lparr>px = 80, py = 16\<rparr> = (2, 0)"
  by (simp add: example_simps)

lemma example_to_world:
  "to_world (example_data gm p pos) \<lparr>px = 10, py = 10\<rparr> = Return \<lparr>px = 74, py = 10\<rparr>"
  by (simp add: to_world_def example_simps)

lemma example_click:
  "click_handler (example_data (example_map W) None \<lparr>px = 16, py = 16\<rparr>) (press 80 16)
   = Some (Return (example_data (example_map W) (Some [(0, 0), (1, 0), (2, 0)]) \<lparr>px = 16, py = 16\<rparr>))"
  if "(2, 0) \<notin> W"
  using that example_search [of W]
  by (simp add: click_handler_def has_path_def example_simps)

section \<open>What the search returns\<close>

lemma bf_pathfinding_post:
  assumes "bf_pathfinding gm A B = Some r"
  shows "bf_post (get_neighbors gm) A B r"
  using assms unfolding bf_pathfinding_def by (rule bf_loop_post)

lemma reachable_walk: "reachable nbrs a b \<longleftrightarrow> (\<exists>w. walk nbrs a w \<and> last w = b)"
  unfolding reachable_def by (auto simp: walk_iff_path)

lemma closed_walk:
  assumes "walk nbrs a w" "a \<in> V" "\<forall>u\<in>V. set (nbrs u) \<subseteq> V"
  shows "last w \<in> V"
  using assms by (induction rule: walk.induct) auto

lemma closed_unreachable:
  assumes "a \<in> V" "\<forall>u\<in>V. set (nbrs u) \<subseteq> V" "b \<notin> V"
  shows "\<not> reachable nbrs a b"
  using assms closed_walk [of nbrs a _ V] unfolding reachable_walk by blast

text \<open>
  C9. For every tile \<open>A\<close> and every map, \<open>bf_pathfinding(A, A)\<close> returns the
  one-element path \<open>[A]\<close>, and it does so in the first run of the loop body, which
  leaves through \<open>return path\<close> before any neighbour is asked for.
\<close>

theorem bf_pathfinding_same_tile:
  "bf_pathfinding gm A A = Some (Return (Some [A]))
   \<and> bf_step (get_neighbors gm) A ([[A]], {}) = Inl (Return (Some [A]))"
  by (simp add: bf_pathfinding_def bf_loop.simps bf_step_def)

text \<open>
  C7. In every path that \<open>bf_pathfinding\<close> returns, for any start, target and map,
  each tile but the first is one of the neighbours \<open>get_neighbors\<close> lists for the
  tile before it.
\<close>

theorem bf_pathfinding_adjacent:
  assumes "bf_pathfinding gm A B = Some (Return (Some P))"
  shows "\<forall>i. Suc i < length P \<longrightarrow> P ! Suc i \<in> set (get_neighbors gm (P ! i))"
proof -
  from bf_pathfinding_post [OF assms] have "walk (get_neighbors gm) A P"
    by (simp add: bf_post_def)
  then have "is_path (get_neighbors gm) P" by (rule walk_is_path)
  then show ?thesis by (simp add: is_path_nth)
qed

text \<open>On the example map, from tile (0, 0) to tile (2, 0), at the second pair.\<close>

theorem bf_pathfinding_adjacent_witness:
  "bf_pathfinding (example_map {}) (0, 0) (2, 0) = Some (Return (Some [(0, 0), (1, 0), (2, 0)]))
   \<and> [(0, 0), (1, 0), (2, 0)] ! Suc 1 \<in> set (get_neighbors (example_map {}) ([(0, 0), (1, 0), (2, 0)] ! 1))"
proof -
  have h: "bf_pathfinding (example_map {}) (0, 0) (2, 0) = Some (Return (Some [(0, 0), (1, 0), (2, 0)]))"
    by (rule example_search)
  from bf_pathfinding_adjacent [OF h, rule_format, of 1] h show ?thesis by simp
qed

text \<open>
  C1. Whenever the target \<open>B\<close> can be reached from the start \<open>A\<close> along
  \<open>get_neighbors\<close>, \<open>bf_pathfinding(A, B)\<close> returns a path from \<open>A\<close> to \<open>B\<close>
  whose number of hops (its length minus one) is the least number of hops of any path
  from \<open>A\<close> to \<open>B\<close>. The map need not be finite: the search comes back because
  the target is found at a finite depth.
\<close>

theorem bf_pathfinding_shortest:
  assumes "reachable (get_neighbors gm) A B"
  shows "\<exists>P. bf_pathfinding gm A B = Some (Return (Some P))
           \<and> is_path (get_neighbors gm) P \<and> hd P = A \<and> last P = B
           \<and> length P - 1 = hop_dist (get_neighbors gm) A B"
proof -
  let ?n = "get_neighbors gm"
  from assms obtain w where w: "walk ?n A w" "last w = B" by (auto simp: reachable_walk)
  from bf_loop_terminates_reachable [OF w bf_inv_init]
  obtain r where r: "bf_pathfinding gm A B = Some r" by (auto simp: bf_pathfinding_def)
  from bf_pathfinding_post [OF r] have post: "bf_post ?n A B r" .
  then obtain P where P: "r = Return (Some P)"
    using w by (cases r) (auto simp: bf_post_def split: option.splits)
  from post P have wP: "walk ?n A P" and lP: "last P = B"
    and least: "\<And>w'. walk ?n A w' \<Longrightarrow> last w' = B \<Longrightarrow> length P \<le> length w'"
    by (simp_all add: bf_post_def)
  from wP have pP: "is_path ?n P" "hd P = A" by (simp_all add: walk_iff_path)
  from wP have "P \<noteq> []" by (rule walk_nonempty)
  then have len: "length P = Suc (length P - 1)" by simp
  have "hop_dist ?n A B = length P - 1"
    unfolding hop_dist_def
  proof (rule Least_equality)
    from pP lP len show "\<exists>p. is_path ?n p \<and> hd p = A \<and> last p = B \<and> length p = Suc (length P - 1)"
      by blast
  next
    fix k assume "\<exists>p. is_path ?n p \<and> hd p = A \<and> last p = B \<and> length p = Suc k"
    then obtain p where p: "is_path ?n p" "hd p = A" "last p = B" "length p = Suc k" by blast
    then have "walk ?n A p" by (simp add: walk_iff_path)
    from least [OF this p(3)] p(4) show "length P - 1 \<le> k" by simp
  qed
  with r P pP lP show ?thesis by simp
qed

text \<open>On the example map, tile (2, 0) is reachable from tile (0, 0).\<close>

theorem bf_pathfinding_shortest_witness:
  "reachable (get_neighbors (example_map {})) (0, 0) (2, 0)
   \<and> (\<exists>P. bf_pathfinding (example_map {}) (0, 0) (2, 0) = Some (Return (Some P))
           \<and> is_path (get_neighbors (example_map {})) P \<and> hd P = (0, 0) \<and> last P = (2, 0)
           \<and> length P - 1 = hop_dist (get_neighbors (example_map {})) (0, 0) (2, 0))"
proof -
  have "is_path (get_neighbors (example_map {})) [(0, 0), (1, 0), (2, 0)]"
    by (simp add: example_simps)
  then have h: "reachable (get_neighbors (example_map {})) (0, 0) (2, 0)"
    unfolding reachable_def by (intro exI [of _ "[(0, 0), (1, 0), (2, 0)]"]) simp
  from bf_pathfinding_shortest [OF h] h show ?thesis by simp
qed

lemma bf_pathfinding_finite_returns:
  assumes "finite V" "A \<in> V" "\<forall>u\<in>V. set (get_neighbors gm u) \<subseteq> V"
  shows "\<exists>r. bf_pathfinding gm A B = Some (Return r)"
proof -
  from assms(2) have "\<forall>p\<in>set [[A]]. last p \<in> V" by simp
  from bf_loop_terminates_finite [OF assms(1) assms(3) this]
  obtain r where r: "bf_pathfinding gm A B = Some r" by (auto simp: bf_pathfinding_def)
  from bf_pathfinding_post [OF r] show ?thesis using r by (cases r) (simp_all add: bf_post_def)
qed

text \<open>
  C10. On a finite adjacency graph (a finite set of tiles that holds the start and the
  neighbours of each of its tiles) \<open>bf_pathfinding\<close> comes back, with a path or with
  \<open>None\<close> and never with an exception, for every start and target; paths to tiles
  already visited are queued all the same and dropped when they are taken from the queue.
\<close>

theorem bf_pathfinding_terminates:
  assumes "finite V" "A \<in> V" "\<forall>u\<in>V. set (get_neighbors gm u) \<subseteq> V"
  shows "\<exists>r. bf_pathfinding gm A B = Some (Return r)"
  using assms by (rule bf_pathfinding_finite_returns)

text \<open>On the six tiles of the example map, with a target off the grid.\<close>

theorem bf_pathfinding_terminates_witness:
  "finite {(0, 0), (1, 0), (2, 0), (0, 1), (1, 1), (2, 1 :: int) :: int \<times> int}
   \<and> (0, 0) \<in> {(0, 0), (1, 0), (2, 0), (0, 1), (1, 1), (2, 1 :: int) :: int \<times> int}
   \<and> (\<exists>r. bf_pathfinding (example_map {}) (0, 0) (5, 5) = Some (Return r))"
proof -
  let ?V = "{(0, 0), (1, 0), (2, 0), (0, 1), (1, 1), (2, 1 :: int) :: int \<times> int}"
  have h1: "finite ?V" by simp
  have h2: "(0, 0) \<in> ?V" by simp
  have h3: "\<forall>u\<in>?V. set (get_neighbors (example_map {}) u) \<subseteq> ?V"
    by (simp add: example_simps)
  from bf_pathfinding_terminates [OF h1 h2 h3, of "(5, 5)"] h1 h2 show ?thesis by blast
qed

section \<open>No path\<close>

lemma line_never_returns:
  "bf_loop (\<lambda>n. [Suc n]) 0 ([[Suc 0]], {}) = None"
proof (rule ccontr)
  let ?I = "\<lambda>st :: nat list list \<times> nat set.
    \<exists>p. fst st = [p] \<and> p \<noteq> [] \<and> 0 < last p \<and> (\<forall>v\<in>snd st. v < last p)"
  assume "bf_loop (\<lambda>n. [Suc n]) 0 ([[Suc 0]], {}) \<noteq> None"
  then obtain r where run: "bf_loop (\<lambda>n. [Suc n]) 0 ([[Suc 0]], {}) = Some r" by blast
  show False
    using run
  proof (rule bf_loop_rule [where I = ?I and Q = "\<lambda>_. False"])
    show "?I ([[Suc 0]], {})" by simp
  next
    fix x x' :: "nat list list \<times> nat set"
    assume "?I x" and step: "bf_step (\<lambda>n. [Suc n]) 0 x = Inr x'"
    then obtain p where p: "fst x = [p]" "p \<noteq> []" "0 < last p" "\<forall>v\<in>snd x. v < last p"
      by blast
    from p(4) have "last p \<notin> snd x" by blast
    with p step have "x' = ([p @ [Suc (last p)]], insert (last p) (snd x))"
      by (simp add: bf_step_def Let_def)
    with p show "?I x'" by (auto intro: less_SucI)
  next
    fix x :: "nat list list \<times> nat set" and y
    assume "?I x" and step: "bf_step (\<lambda>n. [Suc n]) 0 x = Inl y"
    then obtain p where p: "fst x = [p]" "p \<noteq> []" "0 < last p" "\<forall>v\<in>snd x. v < last p"
      by blast
    from p(4) have "last p \<notin> snd x" by blast
    with p step show False by (simp add: bf_step_def Let_def)
  qed
qed

text \<open>
  On the unbounded line, tile 0 cannot be reached from tile 1, and the search from 1 to
  0 never comes back: every run of the loop body takes the one queued path, finds a tile
  that is neither the target nor visited, and queues the path to the next tile.
\<close>

theorem unreachable_on_unbounded_line_counterexample:
  "\<not> reachable (get_neighbors line_map) (Suc 0) 0
   \<and> bf_pathfinding line_map (Suc 0) 0 = None"
proof -
  have a: "Suc 0 \<in> {n. 0 < n}" by simp
  have b: "\<forall>u\<in>{n. 0 < n}. set (get_neighbors line_map u) \<subseteq> {n. 0 < n}"
    by (simp add: line_map_def)
  have "\<not> reachable (get_neighbors line_map) (Suc 0) 0"
    by (rule closed_unreachable [OF a b]) simp
  moreover have "bf_pathfinding line_map (Suc 0) 0 = None"
    using line_never_returns by (simp add: bf_pathfinding_def line_map_def)
  ultimately show ?thesis by simp
qed

text \<open>
  C6, as amended. On a finite adjacency graph (a finite set \<open>V\<close> of tiles that holds
  the start and the neighbours of each of its tiles), when the target \<open>B\<close> cannot be
  reached from the start \<open>A\<close>, \<open>bf_pathfinding(A, B)\<close> empties its queue and
  returns \<open>None\<close>: it comes back and raises nothing. A click handled with no active
  path, the player on \<open>A\<close> and the click on \<open>B\<close>, then returns normally, leaves
  no active path and leaves the player where it was.
\<close>

theorem bf_pathfinding_unreachable:
  assumes fin: "finite V" and AV: "A \<in> V" and cl: "\<forall>u\<in>V. set (get_neighbors gm u) \<subseteq> V"
    and unr: "\<not> reachable (get_neighbors gm) A B"
  shows "bf_pathfinding gm A B = Some (Return None)
         \<and> (\<forall>gd ev. game_map gd = gm \<and> player_tile gd = A \<and> click_target gd ev = B \<and> \<not> has_path gd
              \<longrightarrow> (\<exists>gd'. click_handler gd ev = Some (Return gd') \<and> \<not> has_path gd'
                          \<and> player gd' = player gd))"
proof -
  from bf_pathfinding_finite_returns [OF fin AV cl]
  obtain r where r: "bf_pathfinding gm A B = Some (Return r)" by blast
  have none: "r = None"
  proof (cases r)
    case (Some P)
    with bf_pathfinding_post [OF r] have "walk (get_neighbors gm) A P \<and> last P = B"
      by (simp add: bf_post_def)
    with unr show ?thesis by (auto simp: reachable_walk)
  qed simp
  with r have search: "bf_pathfinding gm A B = Some (Return None)" by simp
  have "\<exists>gd'. click_handler gd ev = Some (Return gd') \<and> \<not> has_path gd' \<and> player gd' = player gd"
    if "game_map gd = gm \<and> player_tile gd = A \<and> click_target gd ev = B \<and> \<not> has_path gd" for gd ev
    using that search by (simp add: click_handler_def Let_def has_path_def)
  with search show ?thesis by blast
qed

text \<open>
  On the fenced map with the middle column walled, the player on tile (0, 0) and a click
  on tile (2, 0).
\<close>

theorem bf_pathfinding_unreachable_witness:
  "finite {(0, 0), (0, 1 :: int) :: int \<times> int}
   \<and> (0, 0) \<in> {(0, 0), (0, 1 :: int) :: int \<times> int}
   \<and> \<not> reachable (get_neighbors (fenced_map {(1, 0), (1, 1)})) (0, 0) (2, 0)
   \<and> bf_pathfinding (fenced_map {(1, 0), (1, 1)}) (0, 0) (2, 0) = Some (Return None)
   \<and> (\<exists>gd'. click_handler (example_data (fenced_map {(1, 0), (1, 1)}) None \<lparr>px = 16, py = 16\<rparr>) (press 80 16)
               = Some (Return gd') \<and> \<not> has_path gd' \<and> player gd' = \<lparr>px = 16, py = 16\<rparr>)"
proof -
  let ?V = "{(0, 0), (0, 1 :: int) :: int \<times> int}"
  let ?gm = "fenced_map {(1, 0), (1, 1)}"
  let ?gd = "example_data ?gm None \<lparr>px = 16, py = 16\<rparr>"
  have h1: "finite ?V" by simp
  have h2: "(0, 0) \<in> ?V" by simp
  have h3: "\<forall>u\<in>?V. set (get_neighbors ?gm u) \<subseteq> ?V" by (auto simp: example_simps)
  have h4: "\<not> reachable (get_neighbors ?gm) (0, 0) (2, 0)"
    by (rule closed_unreachable [OF h2 h3]) simp
  have h5: "game_map ?gd = ?gm \<and> player_tile ?gd = (0, 0) \<and> click_target ?gd (press 80 16) = (2, 0)
            \<and> \<not> has_path ?gd"
    by (simp add: example_simps has_path_def)
  from bf_pathfinding_unreachable [OF h1 h2 h3 h4]
  have "bf_pathfinding ?gm (0, 0) (2, 0) = Some (Return None)"
    and "\<exists>gd'. click_handler ?gd (press 80 16) = Some (Return gd') \<and> \<not> has_path gd'
           \<and> player gd' = player ?gd"
    using h5 by blast+
  moreover have "player ?gd = \<lparr>px = 16, py = 16\<rparr>" by (simp add: example_data_def)
  ultimately show ?thesis using h1 h2 h4 by simp
qed

section \<open>Ticks\<close>

text \<open>
  C4. In a tick that finds an active path whose first tile is not passable, the whole
  path is dropped (\<open>path\<close> becomes \<open>None\<close>, so no path is active) and the player's
  position is left as it was.
\<close>

theorem update_blocked_head:
  assumes "path gd = Some (T # rest)" and "\<not> is_tile_passable (game_map gd) T"
  shows "path (update gd) = None \<and> \<not> has_path (update gd) \<and> player (update gd) = player gd"
  using assms by (simp add: update_def has_path_def Let_def)

text \<open>On the example map with a wall on tile (1, 0), the first tile of the path.\<close>

theorem update_blocked_head_witness:
  "path (example_data (example_map {(1, 0)}) (Some [(1, 0), (2, 0)]) \<lparr>px = 0, py = 0\<rparr>) = Some ((1, 0) # [(2, 0)])
   \<and> \<not> is_tile_passable (game_map (example_data (example_map {(1, 0)}) (Some [(1, 0), (2, 0)]) \<lparr>px = 0, py = 0\<rparr>)) (1, 0)
   \<and> path (update (example_data (example_map {(1, 0)}) (Some [(1, 0), (2, 0)]) \<lparr>px = 0, py = 0\<rparr>)) = None
   \<and> player (update (example_data (example_map {(1, 0)}) (Some [(1, 0), (2, 0)]) \<lparr>px = 0, py = 0\<rparr>)) = \<lparr>px = 0, py = 0\<rparr>"
proof -
  let ?gd = "example_data (example_map {(1, 0)}) (Some [(1, 0), (2, 0)]) \<lparr>px = 0, py = 0\<rparr>"
  have h1: "path ?gd = Some ((1, 0) # [(2, 0)])" by (simp add: example_data_def)
  have h2: "\<not> is_tile_passable (game_map ?gd) (1, 0)" by (simp add: example_simps)
  have "player ?gd = \<lparr>px = 0, py = 0\<rparr>" by (simp add: example_data_def)
  with update_blocked_head [OF h1 h2] h1 h2 show ?thesis by simp
qed

text \<open>
  C5. With the active path \<open>[T1, T2, T3]\<close> and the three tiles passable, three
  ticks put the player on \<open>world(T1)\<close>, then \<open>world(T2)\<close>, then \<open>world(T3)\<close>,
  each tick taking one tile off the front of the path, and after the third tick the path
  is empty and no path is active.
\<close>

theorem update_three_ticks:
  assumes "path gd = Some [T1, T2, T3]"
    and "is_tile_passable (game_map gd) T1" "is_tile_passable (game_map gd) T2"
      "is_tile_passable (game_map gd) T3"
  shows "player (update gd) = world (game_map gd) T1 \<and> path (update gd) = Some [T2, T3]
       \<and> player (update (update gd)) = world (game_map gd) T2 \<and> path (update (update gd)) = Some [T3]
       \<and> player (update (update (update gd))) = world (game_map gd) T3
       \<and> path (update (update (update gd))) = Some []
       \<and> \<not> has_path (update (update (update gd)))"
  using assms by (simp add: update_def has_path_def Let_def)

text \<open>On the example map, along its top row.\<close>

theorem update_three_ticks_witness:
  "path (example_data (example_map {}) (Some [(0, 0), (1, 0), (2, 0)]) \<lparr>px = 5, py = 7\<rparr>) = Some [(0, 0), (1, 0), (2, 0)]
   \<and> is_tile_passable (example_map {}) (0, 0) \<and> is_tile_passable (example_map {}) (1, 0)
   \<and> is_tile_passable (example_map {}) (2, 0)
   \<and> player (update (example_data (example_map {}) (Some [(0, 0), (1, 0), (2, 0)]) \<lparr>px = 5, py = 7\<rparr>)) = \<lparr>px = 0, py = 0\<rparr>
   \<and> player (update (update (example_data (example_map {}) (Some [(0, 0), (1, 0), (2, 0)]) \<lparr>px = 5, py = 7\<rparr>))) = \<lparr>px = 32, py = 0\<rparr>
   \<and> player (update (update (update (example_data (example_map {}) (Some [(0, 0), (1, 0), (2, 0)]) \<lparr>px = 5, py = 7\<rparr>)))) = \<lparr>px = 64, py = 0\<rparr>
   \<and> \<not> has_path (update (update (update (example_data (example_map {}) (Some [(0, 0), (1, 0), (2, 0)]) \<lparr>px = 5, py = 7\<rparr>))))"
proof -
  let ?gd = "example_data (example_map {}) (Some [(0, 0), (1, 0), (2, 0)]) \<lparr>px = 5, py = 7\<rparr>"
  have gm: "game_map ?gd = example_map {}" by (simp add: example_data_def)
  have h1: "path ?gd = Some [(0, 0), (1, 0), (2, 0)]" by (simp add: example_data_def)
  have h2: "is_tile_passable (game_map ?gd) (0, 0)" "is_tile_passable (game_map ?gd) (1, 0)"
    "is_tile_passable (game_map ?gd) (2, 0)" by (simp_all add: example_simps)
  have w: "world (example_map {}) (0, 0) = \<lparr>px = 0, py = 0\<rparr>"
    "world (example_map {}) (1, 0) = \<lparr>px = 32, py = 0\<rparr>"
    "world (example_map {}) (2, 0) = \<lparr>px = 64, py = 0\<rparr>" by (simp_all add: example_simps)
  from update_three_ticks [OF h1 h2] h1 h2 show ?thesis unfolding gm w by simp
qed

section \<open>Clicks and ticks\<close>

lemma click_handler_installs:
  assumes "\<not> has_path gd" and "click_handler gd ev = Some (Return gd')"
    and "path gd' = Some P" and "P \<noteq> []"
  shows "is_tile_passable (game_map gd) (click_target gd ev)
         \<and> bf_pathfinding (game_map gd) (player_tile gd) (click_target gd ev) = Some (Return (Some P))
         \<and> gd' = gd\<lparr>path := Some P\<rparr>"
  using assms
  by (auto simp: click_handler_def Let_def has_path_def
      split: if_splits option.splits outcome.splits)


lemma walk_tl_all:
  assumes "walk nbrs s p" and "\<forall>u. \<forall>n\<in>set (nbrs u). Q n"
  shows "\<forall>T\<in>set (tl p). Q T"
  using assms
proof (induction rule: walk.induct)
  case walk_start
  show ?case by simp
next
  case (walk_step p n)
  from walk_step.hyps(1) have "p \<noteq> []" by (rule walk_nonempty)
  then have "tl (p @ [n]) = tl p @ [n]" by simp
  moreover from walk_step.hyps(2) walk_step.prems have "Q n" by blast
  ultimately show ?case using walk_step.IH walk_step.prems by simp
qed

lemma fenced_gap_search:
  "bf_pathfinding (fenced_map {(1, 1)}) (0, 0) (2, 0) = Some (Return (Some [(0, 0), (1, 0), (2, 0)]))"
  by (simp add: bf_pathfinding_def bf_loop.simps bf_step_def Let_def example_simps)

lemma fenced_click:
  "click_handler (example_data (fenced_map {(1, 1)}) None \<lparr>px = 16, py = 16\<rparr>) (press 80 16)
   = Some (Return (example_data (fenced_map {(1, 1)}) (Some [(0, 0), (1, 0), (2, 0)]) \<lparr>px = 16, py = 16\<rparr>))"
  using fenced_gap_search
  by (simp add: click_handler_def has_path_def example_simps)

section \<open>The path a click installs\<close>




text \<open>
  On the example map with walls on tiles (0, 0) and (1, 0), whose \<open>get_neighbors\<close>
  lists walls too, the same click installs a path whose first two tiles are not passable.
\<close>

theorem fresh_path_passable_counterexample:
  "click_handler (example_data (example_map {(0, 0), (1, 0)}) None \<lparr>px = 16, py = 16\<rparr>) (press 80 16)
     = Some (Return (example_data (example_map {(0, 0), (1, 0)}) (Some [(0, 0), (1, 0), (2, 0)]) \<lparr>px = 16, py = 16\<rparr>))
   \<and> \<not> is_tile_passable (example_map {(0, 0), (1, 0)}) (0, 0)
   \<and> \<not> is_tile_passable (example_map {(0, 0), (1, 0)}) (1, 0)"
  using example_click [of "{(0, 0), (1, 0)}"] by (simp add: example_simps)

text \<open>
  C8, as amended. In the path that a click installs, the last tile (the clicked one) is
  passable, and every tile after the first is passable when \<open>get_neighbors\<close> lists
  passable tiles only. Nothing is said of the first tile, the one the player stands on.
\<close>

theorem installed_path_passable:
  assumes "\<not> has_path gd" and "click_handler gd ev = Some (Return gd')"
    and "path gd' = Some P" and "P \<noteq> []"
  shows "is_tile_passable (game_map gd) (last P)
         \<and> ((\<forall>u. \<forall>n\<in>set (get_neighbors (game_map gd) u). is_tile_passable (game_map gd) n)
              \<longrightarrow> (\<forall>T\<in>set (tl P). is_tile_passable (game_map gd) T))"
proof -
  from click_handler_installs [OF assms]
  have ok: "is_tile_passable (game_map gd) (click_target gd ev)"
    and search: "bf_pathfinding (game_map gd) (player_tile gd) (click_target gd ev) = Some (Return (Some P))"
    by simp_all
  from bf_pathfinding_post [OF search]
  have w: "walk (get_neighbors (game_map gd)) (player_tile gd) P" and l: "last P = click_target gd ev"
    by (simp_all add: bf_post_def)
  from walk_tl_all [OF w, of "is_tile_passable (game_map gd)"] ok l show ?thesis by simp
qed

text \<open>On the fenced map with a wall on tile (1, 1).\<close>

theorem installed_path_passable_witness:
  "\<not> has_path (example_data (fenced_map {(1, 1)}) None \<lparr>px = 16, py = 16\<rparr>)
   \<and> click_handler (example_data (fenced_map {(1, 1)}) None \<lparr>px = 16, py = 16\<rparr>) (press 80 16)
       = Some (Return (example_data (fenced_map {(1, 1)}) (Some [(0, 0), (1, 0), (2, 0)]) \<lparr>px = 16, py = 16\<rparr>))
   \<and> is_tile_passable (fenced_map {(1, 1)}) (last [(0, 0), (1, 0), (2, 0)])
   \<and> is_tile_passable (fenced_map {(1, 1)}) (1, 0)"
proof -
  let ?gm = "fenced_map {(1, 1)}"
  let ?gd = "example_data ?gm None \<lparr>px = 16, py = 16\<rparr>"
  let ?P = "[(0, 0), (1, 0), (2, 0 :: int) :: int \<times> int]"
  let ?gd' = "example_data ?gm (Some ?P) \<lparr>px = 16, py = 16\<rparr>"
  have gm: "game_map ?gd = ?gm" by (simp add: example_data_def)
  have h1: "\<not> has_path ?gd" by (simp add: has_path_def example_data_def)
  have h2: "click_handler ?gd (press 80 16) = Some (Return ?gd')" by (rule fenced_click)
  have h3: "path ?gd' = Some ?P" by (simp add: example_data_def)
  have h4: "?P \<noteq> []" by simp
  have h5: "\<forall>u. \<forall>n\<in>set (get_neighbors ?gm u). is_tile_passable ?gm n"
    by (auto simp: example_simps)
  from installed_path_passable [OF h1 h2 h3 h4] h5
  have "is_tile_passable ?gm (last ?P)" "\<forall>T\<in>set (tl ?P). is_tile_passable ?gm T"
    unfolding gm by blast+
  with h1 h2 show ?thesis by simp
qed

section \<open>Window and world positions\<close>

text \<open>
  C3, at a failing input. The camera shows the world from x = 64 to x = 704 in a window
  640 wide, so the window point (10, 10) is the world point (74, 10), on tile (2, 0).
  A click there is resolved by the handler to tile (0, 0), the tile of the raw window
  coordinates: \<open>to_world\<close> is not applied.
\<close>

theorem click_handler_skips_to_world:
  "to_world (example_data (example_map {}) None \<lparr>px = 16, py = 16\<rparr>) \<lparr>px = 10, py = 10\<rparr>
     = Return \<lparr>px = 74, py = 10\<rparr>
   \<and> tile (example_map {}) \<lparr>px = 74, py = 10\<rparr> = (2, 0)
   \<and> click_target (example_data (example_map {}) None \<lparr>px = 16, py = 16\<rparr>) (press 10 10) = (0, 0)
   \<and> click_handler (example_data (example_map {}) None \<lparr>px = 16, py = 16\<rparr>) (press 10 10)
     = Some (Return (example_data (example_map {}) (Some [(0, 0)]) \<lparr>px = 16, py = 16\<rparr>))"
proof -
  let ?gd = "example_data (example_map {}) None \<lparr>px = 16, py = 16\<rparr>"
  have a: "to_world ?gd \<lparr>px = 10, py = 10\<rparr> = Return \<lparr>px = 74, py = 10\<rparr>"
    by (rule example_to_world)
  have b: "tile (example_map {}) \<lparr>px = 74, py = 10\<rparr> = (2, 0)"
    by (simp add: example_simps)
  have c: "click_target ?gd (press 10 10) = (0, 0)"
    by (simp add: example_simps)
  have d: "click_handler ?gd (press 10 10)
           = Some (Return (example_data (example_map {}) (Some [(0, 0)]) \<lparr>px = 16, py = 16\<rparr>))"
    by (simp add: click_handler_def has_path_def bf_pathfinding_def bf_loop.simps bf_step_def
        example_simps)
  from a b c d show ?thesis by simp
qed

end
